theory Spec2Isabelle
  imports Main "HOL-Library.Word" "HOL-Library.Multiset" "HOL-Library.List_Lexorder"
    "HOL-Library.Char_ord" "HOL-Library.AList"
begin

section \<open>The customer importer: data model\<close>

text \<open>
  The development follows \<^verbatim>\<open>customerimporter/interview.go\<close>. Strings are byte
  lists, as Go strings are; \<open><\<close> on them (from \<open>List_Lexorder\<close> and \<open>Char_ord\<close>) is the
  byte-wise lexicographic order of Go's string comparison. Go's \<open>int\<close> is taken at its
  64-bit width: \<open>+\<close> wraps around and \<open>sint\<close> reads the two's complement value.
  Log output is not part of the model.
\<close>

type_synonym go_int = "64 word"

definition EMAIL_IDX :: nat where
  "EMAIL_IDX = 2"

record DomainStat =
  Name :: string
  Count :: go_int

record DomainsCount =
  DomainStats :: "DomainStat list"
  TotalCount :: go_int

text \<open>
  Error values: \<open>EOF\<close> is \<^verbatim>\<open>io.EOF\<close>, \<open>Failure msg\<close> any other error handed up
  by the operating system or the CSV reader, \<open>Errorf msg\<close> the value built by
  \<^verbatim>\<open>fmt.Errorf\<close>. \<open>Error\<close> is the method giving the message.
\<close>

datatype error = EOF | Failure string | Errorf string

fun Error :: "error \<Rightarrow> string" where
  "Error EOF = ''EOF''"
| "Error (Failure msg) = msg"
| "Error (Errorf msg) = msg"

section \<open>Library functions the importer calls\<close>

text \<open>
  \<^verbatim>\<open>strings.TrimSpace\<close> and \<^verbatim>\<open>strings.ToLower\<close> are modelled on ASCII: the six
  ASCII white space bytes are trimmed, the bytes \<open>A\<close> to \<open>Z\<close> are moved by
  \<open>'a' - 'A'\<close>, and every other byte is left as it is. The separator of
  \<^verbatim>\<open>strings.SplitN\<close> and the argument of \<^verbatim>\<open>strings.Contains\<close> are the one-byte
  string \<^verbatim>\<open>"@"\<close> in the source, so both take a byte; \<open>SplitN\<close> is the call with
  \<open>n = 2\<close>, which splits at the first separator only.
\<close>

definition isSpace :: "char \<Rightarrow> bool" where
  "isSpace c =
     (c = CHR 0x09 \<or> c = CHR 0x0A \<or> c = CHR 0x0B \<or> c = CHR 0x0C \<or> c = CHR 0x0D \<or> c = CHR 0x20)"

definition TrimSpace :: "string \<Rightarrow> string" where
  "TrimSpace s = rev (dropWhile isSpace (rev (dropWhile isSpace s)))"

definition toLower :: "char \<Rightarrow> char" where
  "toLower c =
     (if CHR ''A'' \<le> c \<and> c \<le> CHR ''Z'' then char_of (of_char c + (32::nat)) else c)"

definition ToLower :: "string \<Rightarrow> string" where
  "ToLower s = map toLower s"

definition Contains :: "string \<Rightarrow> char \<Rightarrow> bool" where
  "Contains s sep = (sep \<in> set s)"

definition SplitN :: "string \<Rightarrow> char \<Rightarrow> string list" where
  "SplitN s sep =
     (if Contains s sep
      then [takeWhile (\<lambda>c. c \<noteq> sep) s, tl (dropWhile (\<lambda>c. c \<noteq> sep) s)]
      else [s])"

text \<open>The verb \<^verbatim>\<open>%d\<close> of \<^verbatim>\<open>fmt\<close> on an \<open>int\<close>: the signed decimal numeral.\<close>

fun digits :: "nat \<Rightarrow> string" where
  "digits n =
     (if n < 10 then [char_of (48 + n)]
      else digits (n div 10) @ [char_of (48 + n mod 10)])"

declare digits.simps [simp del]

definition Itoa :: "go_int \<Rightarrow> string" where
  "Itoa i =
     (if sint i < 0 then CHR ''-'' # digits (nat (- sint i)) else digits (nat (sint i)))"

section \<open>Domain extraction\<close>

text \<open>
  The nested conditional is Go's short-circuit \<^verbatim>\<open>||\<close>: \<^verbatim>\<open>emailSplit[1]\<close> is read
  only when the split has two parts.
\<close>

definition extractDomain :: "string \<Rightarrow> string" where
  "extractDomain email =
     (let emailSplit = SplitN email CHR ''@'' in
      if length emailSplit \<noteq> 2 then ''''
      else if Contains (emailSplit ! 1) CHR ''@'' then ''''
      else ToLower (emailSplit ! 1))"

text \<open>
  The rule of the specification, in its words: the trimmed string is split on the first
  \<open>@\<close>; the address is valid when the left part is not empty and the right part has no
  further \<open>@\<close>.
\<close>

definition spec_valid_email :: "string \<Rightarrow> bool" where
  "spec_valid_email email =
     (case SplitN (TrimSpace email) CHR ''@'' of
        [localPart, domainPart] \<Rightarrow> localPart \<noteq> '''' \<and> \<not> Contains domainPart CHR ''@''
      | _ \<Rightarrow> False)"

text \<open>
  The body of a worker's loop on one email received from the channel: the domain it sends
  on, or \<open>None\<close> when the address is dropped with a log line.
\<close>

definition worker_body :: "string \<Rightarrow> string option" where
  "worker_body email =
     (let domain = extractDomain (TrimSpace email) in
      if domain = '''' then None else Some domain)"

text \<open>
  \<open>extractDomains\<close> is one worker running alone: the domains it sends, in order, for
  the emails it receives.
\<close>

fun extractDomains :: "string list \<Rightarrow> string list" where
  "extractDomains [] = []"
| "extractDomains (email # emailChan) =
     (case worker_body email of
        None \<Rightarrow> extractDomains emailChan
      | Some domain \<Rightarrow> domain # extractDomains emailChan)"

section \<open>The record source\<close>

text \<open>
  The CSV reader of the standard library is taken by what it returns. The input is the
  list of its rows after parsing, each a record (the fields of the row) or a row the
  library rejects: one that does not parse, or one whose number of fields differs from
  the header's (\<^verbatim>\<open>ErrFieldCount\<close>). \<open>Read\<close> returns the next row and the reader
  advanced past it, and \<open>EOF\<close> once the rows are used up.
\<close>

datatype csv_row = Record "string list" | ParseError string

type_synonym csv_Reader = "csv_row list"

definition Read :: "csv_Reader \<Rightarrow> (error + string list) \<times> csv_Reader" where
  "Read r =
     (case r of
        [] \<Rightarrow> (Inl EOF, [])
      | Record records # rest \<Rightarrow> (Inr records, rest)
      | ParseError msg # rest \<Rightarrow> (Inl (Failure msg), rest))"

text \<open>\<open>csvReader\<close> gives the emails put on the channel, in order.\<close>

function csvReader :: "csv_Reader \<Rightarrow> string list" where
  "csvReader csvreader =
     (case Read csvreader of
        (Inl err, rest) \<Rightarrow> if err = EOF then [] else csvReader rest
      | (Inr records, rest) \<Rightarrow>
          if length records \<le> EMAIL_IDX then csvReader rest
          else records ! EMAIL_IDX # csvReader rest)"
  by pat_completeness auto
termination
  by (relation "measure length")
    (auto simp: Read_def split: list.splits csv_row.splits)

declare csvReader.simps [simp del]

section \<open>The extractor pool\<close>

text \<open>
  The workers share the email channel and the domain channel. Both are FIFO, the first
  has one sender and the second one receiver, so a run of the pool is determined by the
  order in which the workers act. A worker that holds a computed domain sends it as its
  next action; otherwise it receives the next email, if there is one. A schedule is the
  list of the workers that act, by number; once it is used up the run is completed by
  letting each worker send what it holds and the first worker take the remaining emails.
  Blocking on a full or empty channel only delays an action, and is left out.
\<close>

record pool =
  emailChan :: "string list"
  held :: "string option list"
  domains :: "string list"

definition worker_step :: "nat \<Rightarrow> pool \<Rightarrow> pool" where
  "worker_step k p =
     (case held p ! k of
        Some domain \<Rightarrow> p\<lparr>held := (held p)[k := None], domains := domains p @ [domain]\<rparr>
      | None \<Rightarrow>
          (case emailChan p of
             [] \<Rightarrow> p
           | email # rest \<Rightarrow> p\<lparr>emailChan := rest, held := (held p)[k := worker_body email]\<rparr>))"

fun run_schedule :: "nat \<Rightarrow> nat list \<Rightarrow> pool \<Rightarrow> pool" where
  "run_schedule numWorkers [] p = p"
| "run_schedule numWorkers (k # sched) p =
     run_schedule numWorkers sched (worker_step (k mod numWorkers) p)"

definition complete_run :: "pool \<Rightarrow> string list" where
  "complete_run p =
     domains p @ concat (map (\<lambda>h. case h of None \<Rightarrow> [] | Some d \<Rightarrow> [d]) (held p))
       @ extractDomains (emailChan p)"

text \<open>
  The domains in the order the aggregator receives them. Without a worker nobody
  receives from the unbuffered email channel: when the source has an email to send, the
  run never ends (\<open>None\<close>).
\<close>

definition worker_pool :: "nat \<Rightarrow> nat list \<Rightarrow> string list \<Rightarrow> string list option" where
  "worker_pool numWorkers sched emails =
     (if numWorkers = 0 then (if emails = [] then Some [] else None)
      else Some (complete_run (run_schedule numWorkers sched
             \<lparr>emailChan = emails, held = replicate numWorkers None, domains = []\<rparr>)))"

section \<open>The aggregator and the report builder\<close>

text \<open>
  A Go map is an association list with distinct keys: \<open>lookup\<close> is \<^verbatim>\<open>m[k]\<close>, the zero
  value for a key that is absent, and \<open>AList.update\<close> the assignment \<^verbatim>\<open>m[k] = v\<close>.
  Ranging over a map visits the entries in an order the language leaves open; the
  model visits them in the order of the list, and \<open>createStats_order\<close> below shows that
  the order does not matter to \<open>createStats\<close>. \<^verbatim>\<open>sort.Slice\<close> by name is the sort of the
  library on the key \<open>Name\<close>.
\<close>

type_synonym domainMap = "(string \<times> go_int) list"

definition lookup :: "domainMap \<Rightarrow> string \<Rightarrow> go_int" where
  "lookup m k = (case map_of m k of None \<Rightarrow> 0 | Some v \<Rightarrow> v)"

fun aggregateDomains :: "string list \<Rightarrow> domainMap \<times> go_int \<Rightarrow> domainMap \<times> go_int" where
  "aggregateDomains [] (domainMap, totalCustomers) = (domainMap, totalCustomers)"
| "aggregateDomains (domain # rest) (domainMap, totalCustomers) =
     aggregateDomains rest
       (AList.update domain (lookup domainMap domain + 1) domainMap, totalCustomers + 1)"

definition createStats :: "domainMap \<Rightarrow> DomainStat list" where
  "createStats domainMap =
     sort_key Name
       (map (\<lambda>(domain, customers). \<lparr>Name = domain, Count = customers\<rparr>) domainMap)"

section \<open>The pipeline\<close>

text \<open>
  \<open>processCsv\<close> returns the map, the total and the error, or \<open>None\<close> when it does not
  return. The \<open>nil\<close> map of the error path is the empty map. \<open>numWorkers\<close> is a natural
  number: the only caller passes \<^verbatim>\<open>runtime.NumCPU()\<close>.
\<close>

definition processCsv ::
  "csv_Reader \<Rightarrow> nat \<Rightarrow> nat list \<Rightarrow> (domainMap \<times> go_int \<times> error option) option" where
  "processCsv reader numWorkers sched =
     (case Read reader of
        (Inl err, csvreader) \<Rightarrow>
          Some ([], 0, Some (Errorf (''error reading the header of csv: '' @ Error err)))
      | (Inr header, csvreader) \<Rightarrow>
          (case worker_pool numWorkers sched (csvReader csvreader) of
             None \<Rightarrow> None
           | Some received \<Rightarrow>
               (case aggregateDomains received ([], 0) of
                  (domainMap, totalCustomers) \<Rightarrow> Some (domainMap, totalCustomers, None))))"

text \<open>
  The file system maps a path to the reader over the file's contents; a path that cannot
  be opened has no entry. \<open>numCPU\<close> is what \<^verbatim>\<open>runtime.NumCPU()\<close> returns, and
  \<open>sched\<close> the schedule of the pool.
\<close>

definition os_Open :: "(string \<rightharpoonup> csv_Reader) \<Rightarrow> string \<Rightarrow> error + csv_Reader" where
  "os_Open fs filePath =
     (case fs filePath of
        None \<Rightarrow> Inl (Failure (''open '' @ filePath @ '': no such file or directory''))
      | Some file \<Rightarrow> Inr file)"

definition ProcessFile ::
  "(string \<rightharpoonup> csv_Reader) \<Rightarrow> nat \<Rightarrow> nat list \<Rightarrow> string \<Rightarrow> (DomainsCount \<times> error option) option"
  where
  "ProcessFile fs numCPU sched filePath =
     (case os_Open fs filePath of
        Inl err \<Rightarrow> Some (\<lparr>DomainStats = [], TotalCount = 0\<rparr>, Some err)
      | Inr file \<Rightarrow>
          (case processCsv file numCPU sched of
             None \<Rightarrow> None
           | Some (domainMap, totalcustomers, Some err) \<Rightarrow>
               Some (\<lparr>DomainStats = [], TotalCount = 0\<rparr>, Some err)
           | Some (domainMap, totalcustomers, None) \<Rightarrow>
               Some (\<lparr>DomainStats = createStats domainMap, TotalCount = totalcustomers\<rparr>, None)))"

section \<open>The file writer\<close>

text \<open>
  The output file is taken by the outcomes of the calls made on it: of
  \<^verbatim>\<open>os.OpenFile\<close>, of each \<^verbatim>\<open>WriteString\<close> on the buffered writer (by its number,
  from 0) and of \<^verbatim>\<open>Flush\<close>. \<open>writeFile\<close> returns the error, or the contents of the
  file after a run without one: the file is truncated when it is opened, and the flush
  writes the buffer to it.
\<close>

record output_file =
  open_err :: "error option"
  write_err :: "nat \<Rightarrow> error option"
  flush_err :: "error option"

definition OUTPUT_LINE_FORMAT :: "string \<Rightarrow> go_int \<Rightarrow> string" where
  "OUTPUT_LINE_FORMAT domain customers =
     ''Domain: '' @ domain @ '', Customers: '' @ Itoa customers @ [CHR 0x0A]"

fun write_lines ::
  "output_file \<Rightarrow> string \<Rightarrow> nat \<Rightarrow> DomainStat list \<Rightarrow> string \<Rightarrow> error + string" where
  "write_lines file filePath k [] buf = Inr buf"
| "write_lines file filePath k (domainStat # rest) buf =
     (let line = OUTPUT_LINE_FORMAT (Name domainStat) (Count domainStat) in
      case write_err file k of
        Some err \<Rightarrow>
          Inl (Errorf (''error writing to file: '' @ filePath @ '', '' @ Error err))
      | None \<Rightarrow> write_lines file filePath (Suc k) rest (buf @ line))"

definition writeFile :: "output_file \<Rightarrow> DomainsCount \<Rightarrow> string \<Rightarrow> error + string" where
  "writeFile file domainsCount filePath =
     (case open_err file of
        Some err \<Rightarrow> Inl err
      | None \<Rightarrow>
          (let header = ''Total number of customers: '' @ Itoa (TotalCount domainsCount)
                 @ [CHR 0x0A] in
           case write_err file 0 of
             Some err \<Rightarrow>
               Inl (Errorf (''error writing to file: '' @ filePath @ '', '' @ Error err))
           | None \<Rightarrow>
               (case write_lines file filePath 1 (DomainStats domainsCount) header of
                  Inl err \<Rightarrow> Inl err
                | Inr buf \<Rightarrow>
                    (case flush_err file of Some err \<Rightarrow> Inl err | None \<Rightarrow> Inr buf))))"

section \<open>Auxiliary definitions\<close>

text \<open>
  The emails one row contributes to the channel, the list of what a worker holds, and the
  entry \<open>createStats\<close> builds from a map entry.
\<close>

fun row_emails :: "csv_row \<Rightarrow> string list" where
  "row_emails (ParseError msg) = []"
| "row_emails (Record records) =
     (if length records \<le> EMAIL_IDX then [] else [records ! EMAIL_IDX])"

abbreviation opt_list :: "string option \<Rightarrow> string list" where
  "opt_list \<equiv> (\<lambda>h. case h of None \<Rightarrow> [] | Some d \<Rightarrow> [d])"

abbreviation mk_stat :: "string \<times> go_int \<Rightarrow> DomainStat" where
  "mk_stat \<equiv> (\<lambda>(domain, customers). \<lparr>Name = domain, Count = customers\<rparr>)"

text \<open>
  The input of \<^verbatim>\<open>TestProcessCsv_ValidCsv\<close> as the reader returns it, and the report the
  test expects.
\<close>

definition valid_csv :: csv_Reader where
  "valid_csv =
    [Record [''first_name'', ''last_name'', ''email'', ''gender'', ''ip_address''],
     Record [''Mildred'', ''Hernandez'', ''mhernandez0@github.io'', ''Female'', ''38.194.51.128''],
     Record [''Bonnie'', ''Ortiz'', ''bortiz1@github.io'', ''Female'', ''197.54.209.129''],
     Record [''Dennis'', ''Henry'', ''dhenry2@github.io'', ''Male'', ''155.75.186.217''],
     Record [''Gary'', ''Henderson'', ''ghenderson6@acquirethisname.com'', ''Male'', ''30.97.220.14''],
     Record [''Norma'', ''Allen'', ''nallen8@cnet.com'', ''Female'', ''168.67.162.1'']]"

definition valid_csv_report :: DomainsCount where
  "valid_csv_report =
    \<lparr>DomainStats =
       [\<lparr>Name = ''acquirethisname.com'', Count = 1\<rparr>,
        \<lparr>Name = ''cnet.com'', Count = 1\<rparr>,
        \<lparr>Name = ''github.io'', Count = 3\<rparr>],
     TotalCount = 5\<rparr>"

section \<open>Properties of lower-casing and extraction\<close>

lemma ToLower_Nil_iff: "ToLower s = [] \<longleftrightarrow> s = []"
  by (simp add: ToLower_def)

lemma toLower_idem: "toLower (toLower c) = toLower c"
  by (simp add: toLower_def less_eq_char_def)

lemma of_char_toLower:
  "of_char (toLower c) = (if 65 \<le> (of_char c :: nat) \<and> (of_char c :: nat) \<le> 90 then of_char c + 32 else of_char c :: nat)"
  by (simp add: toLower_def less_eq_char_def)

lemma toLower_at_iff: "toLower c = CHR ''@'' \<longleftrightarrow> c = CHR ''@''"
proof -
  have "toLower c = CHR ''@'' \<longleftrightarrow> (of_char (toLower c) :: nat) = of_char CHR ''@''"
    by (simp only: of_char_eq_iff)
  also have "\<dots> \<longleftrightarrow> (of_char c :: nat) = of_char CHR ''@''"
    by (simp add: of_char_toLower)
  also have "\<dots> \<longleftrightarrow> c = CHR ''@''"
    by (simp only: of_char_eq_iff)
  finally show ?thesis .
qed

lemma ToLower_idem: "ToLower (ToLower s) = ToLower s"
  by (simp add: ToLower_def toLower_idem)

lemma Contains_ToLower: "Contains (ToLower s) CHR ''@'' \<longleftrightarrow> Contains s CHR ''@''"
proof (induction s)
  case Nil
  show ?case by (simp add: Contains_def ToLower_def)
next
  case (Cons c s)
  have "CHR ''@'' = toLower c \<longleftrightarrow> CHR ''@'' = c"
    using toLower_at_iff [of c] by auto
  with Cons show ?case by (simp add: Contains_def ToLower_def)
qed

lemma extractDomain_cases:
  "extractDomain email = '''' \<or>
   (\<exists>d. d \<noteq> '''' \<and> \<not> Contains d CHR ''@'' \<and> extractDomain email = ToLower d)"
  by (auto simp: extractDomain_def SplitN_def Let_def ToLower_Nil_iff)

lemma extractDomain_no_at: "\<not> Contains (extractDomain email) CHR ''@''"
  using extractDomain_cases [of email] by (auto simp: Contains_ToLower) (simp add: Contains_def)

lemma extractDomain_lower: "ToLower (extractDomain email) = extractDomain email"
  using extractDomain_cases [of email] by (auto simp: ToLower_idem) (simp add: ToLower_def)

lemma worker_body_Some:
  "worker_body email = Some d \<Longrightarrow> d \<noteq> '''' \<and> \<not> Contains d CHR ''@'' \<and> ToLower d = d"
  by (auto simp: worker_body_def Let_def extractDomain_no_at extractDomain_lower split: if_splits)

lemma extractDomains_set:
  "d \<in> set (extractDomains emails) \<Longrightarrow> d \<noteq> '''' \<and> \<not> Contains d CHR ''@'' \<and> ToLower d = d"
  by (induction emails) (auto split: option.splits dest: worker_body_Some)

lemma length_extractDomains: "length (extractDomains emails) \<le> length emails"
  by (induction emails) (auto split: option.splits)

section \<open>Properties of the record source\<close>

lemma csvReader_Nil: "csvReader [] = []"
  by (simp add: csvReader.simps Read_def)

lemma csvReader_ParseError: "csvReader (ParseError msg # rest) = csvReader rest"
  by (simp add: csvReader.simps [of "_ # _"] Read_def)

lemma csvReader_Record: "csvReader (Record records # rest) =
   (if length records \<le> EMAIL_IDX then csvReader rest else records ! EMAIL_IDX # csvReader rest)"
  by (simp add: csvReader.simps [of "_ # _"] Read_def)

lemma csvReader_concat: "csvReader rows = concat (map row_emails rows)"
proof (induction rows)
  case Nil
  show ?case by (simp add: csvReader_Nil)
next
  case (Cons row rows)
  then show ?case by (cases row) (simp_all add: csvReader_Record csvReader_ParseError)
qed

lemma csvReader_append: "csvReader (rows1 @ rows2) = csvReader rows1 @ csvReader rows2"
  by (simp add: csvReader_concat)

lemma mset_concat_map: "mset (concat (map f xs)) = (\<Sum>x\<in>#mset xs. mset (f x))"
  by (induction xs) simp_all

lemma mset_concat_map_cong:
  "mset xs = mset ys \<Longrightarrow> mset (concat (map f xs)) = mset (concat (map f ys))"
  by (simp add: mset_concat_map)

lemma mset_csvReader: "mset rows = mset rows' \<Longrightarrow> mset (csvReader rows) = mset (csvReader rows')"
  unfolding csvReader_concat by (rule mset_concat_map_cong)

lemma length_csvReader: "length (csvReader rows) \<le> length rows"
proof (induction rows)
  case Nil
  show ?case by (simp add: csvReader_Nil)
next
  case (Cons row rows)
  then show ?case by (cases row) (simp_all add: csvReader_Record csvReader_ParseError)
qed

lemma extractDomains_concat:
  "extractDomains emails = concat (map (\<lambda>e. case worker_body e of None \<Rightarrow> [] | Some d \<Rightarrow> [d]) emails)"
  by (induction emails) (auto split: option.splits)

lemma mset_extractDomains:
  "mset emails = mset emails' \<Longrightarrow> mset (extractDomains emails) = mset (extractDomains emails')"
  unfolding extractDomains_concat by (rule mset_concat_map_cong)

section \<open>Every schedule delivers the same multiset of domains\<close>

lemma mset_concat_update:
  "k < length xs \<Longrightarrow>
   mset (concat (map f (xs[k := v]))) + mset (f (xs ! k)) = mset (concat (map f xs)) + mset (f v)"
proof (induction xs arbitrary: k)
  case Nil
  then show ?case by simp
next
  case (Cons x xs)
  show ?case
  proof (cases k)
    case 0
    then show ?thesis by simp
  next
    case (Suc j)
    with Cons.prems have "j < length xs" by simp
    from Cons.IH [OF this] Suc show ?thesis by (simp add: ac_simps)
  qed
qed

lemma length_held_worker_step: "length (held (worker_step k p)) = length (held p)"
  by (simp add: worker_step_def split: option.splits list.splits)

lemma mset_complete_run_step:
  assumes "k < length (held p)"
  shows "mset (complete_run (worker_step k p)) = mset (complete_run p)"
proof (cases "held p ! k")
  case (Some d)
  from mset_concat_update [OF assms, of opt_list None] Some
  have "mset (concat (map opt_list ((held p)[k := None]))) + {#d#} = mset (concat (map opt_list (held p)))"
    by simp
  then show ?thesis using Some
    by (simp add: worker_step_def complete_run_def flip: add.assoc)
next
  case None
  show ?thesis
  proof (cases "emailChan p")
    case Nil
    with None show ?thesis by (simp add: worker_step_def)
  next
    case (Cons email rest)
    from mset_concat_update [OF assms, of opt_list "worker_body email"] None
    have "mset (concat (map opt_list ((held p)[k := worker_body email]))) =
        mset (concat (map opt_list (held p))) + mset (opt_list (worker_body email))"
      by simp
    then show ?thesis using None Cons
      by (simp add: worker_step_def complete_run_def split: option.splits)
  qed
qed

lemma mset_complete_run_schedule:
  "0 < n \<Longrightarrow> length (held p) = n \<Longrightarrow>
   mset (complete_run (run_schedule n sched p)) = mset (complete_run p)"
proof (induction sched arbitrary: p)
  case Nil
  show ?case by simp
next
  case (Cons k sched)
  have k: "k mod n < length (held p)" using Cons.prems by simp
  have "mset (complete_run (run_schedule n sched (worker_step (k mod n) p)))
      = mset (complete_run (worker_step (k mod n) p))"
    using Cons.prems by (intro Cons.IH) (simp_all add: length_held_worker_step)
  with mset_complete_run_step [OF k] show ?case by simp
qed

lemma worker_pool_mset:
  assumes "0 < n"
  shows "\<exists>ds. worker_pool n sched emails = Some ds \<and> mset ds = mset (extractDomains emails)"
proof -
  let ?p = "\<lparr>emailChan = emails, held = replicate n None, domains = []\<rparr>"
  have "mset (complete_run (run_schedule n sched ?p)) = mset (complete_run ?p)"
    using assms by (intro mset_complete_run_schedule) simp_all
  moreover have "concat (map opt_list (replicate n None)) = []"
    by (induction n) simp_all
  ultimately show ?thesis using assms
    by (simp add: worker_pool_def complete_run_def)
qed

lemma worker_pool_single: "worker_pool 1 [] emails = Some (extractDomains emails)"
  by (simp add: worker_pool_def complete_run_def)

section \<open>Properties of the aggregator\<close>

lemma aggregateDomains_total:
  "snd (aggregateDomains ds (m, t)) = t + of_nat (length ds)"
  by (induction ds arbitrary: m t) (simp_all add: ac_simps)

lemma aggregateDomains_distinct:
  "distinct (map fst m) \<Longrightarrow> distinct (map fst (fst (aggregateDomains ds (m, t))))"
  by (induction ds arbitrary: m t) (simp_all add: distinct_update)

lemma lookup_update: "lookup (AList.update k v m) k' = (if k' = k then v else lookup m k')"
  by (simp add: lookup_def update_conv')

lemma aggregateDomains_lookup:
  "lookup (fst (aggregateDomains ds (m, t))) k = lookup m k + of_nat (count_list ds k)"
  by (induction ds arbitrary: m t) (simp_all add: lookup_update)

lemma keys_update: "fst ` set (AList.update k v m) = insert k (fst ` set m)"
proof -
  have "set (map fst (AList.update k v m)) = insert k (set (map fst m))"
    by (simp only: update_keys) auto
  then show ?thesis by simp
qed

lemma aggregateDomains_keys:
  "fst ` set (fst (aggregateDomains ds (m, t))) = fst ` set m \<union> set ds"
proof (induction ds arbitrary: m t)
  case Nil
  show ?case by simp
next
  case (Cons d ds)
  from Cons [of "AList.update d (lookup m d + 1) m" "t + 1"] show ?case
    by (simp add: keys_update)
qed

lemma aggregateDomains_map_of:
  "map_of (fst (aggregateDomains ds ([], 0))) k =
     (if k \<in> set ds then Some (of_nat (count_list ds k)) else None)"
proof (cases "k \<in> set ds")
  case True
  then have "k \<in> fst ` set (fst (aggregateDomains ds ([], 0)))"
    by (simp add: aggregateDomains_keys)
  then have "map_of (fst (aggregateDomains ds ([], 0))) k \<noteq> None"
    by (simp only: map_of_eq_None_iff not_not)
  then obtain v where v: "map_of (fst (aggregateDomains ds ([], 0))) k = Some v"
    by blast
  then have "lookup (fst (aggregateDomains ds ([], 0))) k = v"
    by (simp add: lookup_def)
  moreover have "lookup (fst (aggregateDomains ds ([], 0))) k = lookup [] k + of_nat (count_list ds k)"
    by (rule aggregateDomains_lookup)
  moreover have "lookup [] k = 0"
    by (simp add: lookup_def)
  ultimately have "v = of_nat (count_list ds k)"
    by simp
  with v True show ?thesis by simp
next
  case False
  then have "k \<notin> fst ` set (fst (aggregateDomains ds ([], 0)))"
    by (simp add: aggregateDomains_keys)
  then have "map_of (fst (aggregateDomains ds ([], 0))) k = None"
    by (simp add: map_of_eq_None_iff)
  with False show ?thesis by simp
qed

lemma aggregateDomains_map_of_cong:
  assumes "mset ds = mset ds'"
  shows "map_of (fst (aggregateDomains ds ([], 0))) = map_of (fst (aggregateDomains ds' ([], 0)))"
proof
  fix k
  have "set ds = set ds'" using assms by (rule mset_eq_setD)
  moreover have "count_list ds k = count_list ds' k"
    using arg_cong [OF assms, of "\<lambda>M. count M k"] by (simp only: count_mset)
  ultimately show "map_of (fst (aggregateDomains ds ([], 0))) k = map_of (fst (aggregateDomains ds' ([], 0))) k"
    by (simp add: aggregateDomains_map_of)
qed

section \<open>Properties of the report builder\<close>

lemma filter_key_distinct:
  "distinct (map f xs) \<Longrightarrow> k \<in> set xs \<Longrightarrow> filter (\<lambda>x. f k = f x) xs = [k]"
proof (induction xs)
  case Nil
  then show ?case by simp
next
  case (Cons x xs)
  show ?case
  proof (cases "k = x")
    case True
    have "filter (\<lambda>y. f x = f y) xs = []"
      using Cons.prems(1) by (auto simp: filter_empty_conv)
    with True show ?thesis by simp
  next
    case False
    with Cons.prems have k: "k \<in> set xs" by simp
    then have "f k \<in> set (map f xs)" by simp
    moreover have "f x \<notin> set (map f xs)" using Cons.prems(1) by simp
    ultimately have "f k \<noteq> f x" by metis
    with Cons k show ?thesis by simp
  qed
qed

lemma sort_key_unique:
  assumes "mset xs = mset ys" and "distinct (map f xs)"
  shows "sort_key f xs = sort_key f ys"
proof (rule properties_for_sort_key)
  show "mset (sort_key f ys) = mset xs" using assms(1) by simp
  show "sorted (map f (sort_key f ys))" by (rule sorted_sort_key)
  fix k assume k: "k \<in> set (sort_key f ys)"
  have "mset (map f (sort_key f ys)) = mset (map f xs)" using assms(1) by simp
  from mset_eq_imp_distinct_iff [OF this] have d: "distinct (map f (sort_key f ys))"
    using assms(2) by simp
  have "k \<in> set xs" using k mset_eq_setD [OF assms(1)] by simp
  then have "filter (\<lambda>x. f k = f x) xs = [k]"
    using assms(2) by (rule filter_key_distinct [rotated])
  moreover have "filter (\<lambda>x. f k = f x) (sort_key f ys) = [k]"
    using d k by (rule filter_key_distinct)
  ultimately show "filter (\<lambda>x. f k = f x) (sort_key f ys) = filter (\<lambda>x. f k = f x) xs"
    by simp
qed

lemma map_Name_mk_stat: "map Name (map mk_stat m) = map fst m"
  by (induction m) auto

lemma map_Count_mk_stat: "map Count (map mk_stat m) = map snd m"
  by (induction m) auto

lemma createStats_order:
  assumes "distinct (map fst m)" and "mset m = mset m'"
  shows "createStats m = createStats m'"
  unfolding createStats_def
proof (rule sort_key_unique)
  show "mset (map mk_stat m) = mset (map mk_stat m')" using assms(2) by simp
  show "distinct (map Name (map mk_stat m))" using assms(1) by (simp only: map_Name_mk_stat)
qed

lemma createStats_map_of:
  assumes "distinct (map fst m)" and "distinct (map fst m')" and "map_of m = map_of m'"
  shows "createStats m = createStats m'"
proof -
  have "set m = set m'" using assms by (simp add: map_of_inject_set)
  moreover have "distinct m" "distinct m'"
    using assms(1,2) by (simp_all add: distinct_map)
  ultimately have "mset m = mset m'" by (simp add: set_eq_iff_mset_eq_distinct)
  with assms(1) show ?thesis by (rule createStats_order)
qed

lemma mset_createStats: "mset (createStats m) = mset (map mk_stat m)"
  by (simp add: createStats_def)

lemma createStats_names_mset: "mset (map Name (createStats m)) = mset (map fst m)"
proof -
  have "mset (map Name (createStats m)) = image_mset Name (mset (createStats m))" by simp
  also have "\<dots> = mset (map Name (map mk_stat m))" by (simp only: mset_createStats mset_map)
  finally show ?thesis by (simp only: map_Name_mk_stat)
qed

lemma createStats_sorted: "sorted (map Name (createStats m))"
  by (simp add: createStats_def)

lemma createStats_strict_sorted:
  assumes "distinct (map fst m)"
  shows "sorted_wrt (<) (map Name (createStats m))"
proof -
  from mset_eq_imp_distinct_iff [OF createStats_names_mset [of m]]
  have "distinct (map Name (createStats m))"
    using assms by simp
  with createStats_sorted show ?thesis by (simp add: strict_sorted_iff)
qed

lemma createStats_pairs:
  "mset (map (\<lambda>s. (Name s, Count s)) (createStats m)) = mset m"
proof -
  have "mset (map (\<lambda>s. (Name s, Count s)) (createStats m))
      = image_mset (\<lambda>s. (Name s, Count s)) (mset (createStats m))" by simp
  also have "\<dots> = mset (map (\<lambda>s. (Name s, Count s)) (map mk_stat m))"
    by (simp only: mset_createStats mset_map)
  also have "map (\<lambda>s. (Name s, Count s)) (map mk_stat m) = m"
    by (induction m) auto
  finally show ?thesis .
qed

lemma sum_Count_createStats: "sum_list (map Count (createStats m)) = sum_list (map snd m)"
proof -
  have "sum_list (map Count (createStats m)) = sum_mset (image_mset Count (mset (createStats m)))"
    by (simp flip: sum_mset_sum_list)
  also have "\<dots> = sum_mset (mset (map Count (map mk_stat m)))"
    by (simp only: mset_createStats mset_map)
  also have "\<dots> = sum_list (map snd m)"
    by (simp only: map_Count_mk_stat sum_mset_sum_list)
  finally show ?thesis .
qed

section \<open>The sum of the counts\<close>

lemma lookup_Cons: "lookup ((k', v) # m) k = (if k = k' then v else lookup m k)"
  by (simp add: lookup_def)

lemma sum_snd_update:
  "sum_list (map snd (AList.update k (lookup m k + 1) m)) = sum_list (map snd m) + (1 :: go_int)"
proof (induction m)
  case Nil
  show ?case by (simp add: lookup_def)
next
  case (Cons e m)
  obtain k' v where e: "e = (k', v)" by (cases e)
  show ?case
  proof (cases "k' = k")
    case True
    then show ?thesis unfolding e by (simp add: lookup_Cons)
  next
    case False
    then have "sum_list (map snd (AList.update k (lookup ((k', v) # m) k + 1) ((k', v) # m)))
        = v + sum_list (map snd (AList.update k (lookup m k + 1) m))"
      by (simp add: lookup_Cons)
    also have "\<dots> = v + (sum_list (map snd m) + 1)"
      by (simp only: Cons.IH)
    finally show ?thesis unfolding e by (simp add: add.assoc)
  qed
qed

lemma aggregateDomains_sum:
  "sum_list (map snd (fst (aggregateDomains ds (m, t)))) = sum_list (map snd m) + of_nat (length ds)"
proof (induction ds arbitrary: m t)
  case Nil
  show ?case by simp
next
  case (Cons d ds)
  have "sum_list (map snd (fst (aggregateDomains (d # ds) (m, t))))
      = sum_list (map snd (fst (aggregateDomains ds (AList.update d (lookup m d + 1) m, t + 1))))"
    by simp
  also have "\<dots> = sum_list (map snd (AList.update d (lookup m d + 1) m)) + of_nat (length ds)"
    by (rule Cons.IH)
  also have "\<dots> = (sum_list (map snd m) + 1) + of_nat (length ds)"
    by (simp only: sum_snd_update)
  finally show ?case by (simp add: add.assoc)
qed

section \<open>Properties of the pipeline\<close>

lemma worker_pool_SomeD:
  assumes "worker_pool n sched emails = Some ds"
  shows "mset ds = mset (extractDomains emails)"
proof (cases "n = 0")
  case True
  with assms show ?thesis by (simp add: worker_pool_def split: if_splits)
next
  case False
  then have "0 < n" by simp
  from worker_pool_mset [OF this, of sched emails] assms show ?thesis by auto
qed

lemma Read_Record: "Read (Record header # rows) = (Inr header, rows)"
  by (simp add: Read_def)

lemma Read_InrD: "Read reader = (Inr header, rest) \<Longrightarrow> reader = Record header # rest"
  by (auto simp: Read_def split: list.splits csv_row.splits)

lemma processCsv_SomeD:
  assumes "processCsv reader n sched = Some (m, t, None)"
  shows "\<exists>header rows ds. reader = Record header # rows \<and>
           worker_pool n sched (csvReader rows) = Some ds \<and>
           aggregateDomains ds ([], 0) = (m, t)"
proof (cases "Read reader")
  case (Pair outcome rest)
  show ?thesis
  proof (cases outcome)
    case (Inl err)
    with Pair assms show ?thesis by (simp add: processCsv_def)
  next
    case (Inr header)
    with Pair have "reader = Record header # rest" by (simp add: Read_InrD)
    moreover from assms Pair Inr
    have "\<exists>ds. worker_pool n sched (csvReader rest) = Some ds \<and> aggregateDomains ds ([], 0) = (m, t)"
      by (auto simp: processCsv_def split: option.splits prod.splits)
    ultimately show ?thesis by blast
  qed
qed

lemma aggregateDomains_result:
  "aggregateDomains ds ([], 0) = (m, t) \<Longrightarrow>
   distinct (map fst m) \<and> t = of_nat (length ds) \<and> sum_list (map snd m) = t \<and>
   fst ` set m = set ds \<and>
   (\<forall>k. map_of m k = (if k \<in> set ds then Some (of_nat (count_list ds k)) else None))"
  using aggregateDomains_total [of ds "[]" 0] aggregateDomains_distinct [of "[]" ds 0]
    aggregateDomains_sum [of ds "[]" 0] aggregateDomains_keys [of ds "[]" 0]
    aggregateDomains_map_of [of ds]
  by simp

lemma processCsv_header_ok:
  assumes "0 < n"
  shows "\<exists>m. processCsv (Record header # rows) n sched =
            Some (m, of_nat (length (extractDomains (csvReader rows))), None) \<and>
          distinct (map fst m) \<and>
          map_of m = map_of (fst (aggregateDomains (extractDomains (csvReader rows)) ([], 0)))"
proof -
  from worker_pool_mset [OF assms, of sched "csvReader rows"]
  obtain ds where ds: "worker_pool n sched (csvReader rows) = Some ds"
    and m: "mset ds = mset (extractDomains (csvReader rows))" by blast
  obtain m t where agg: "aggregateDomains ds ([], 0) = (m, t)" by (cases "aggregateDomains ds ([], 0)")
  from aggregateDomains_result [OF agg] have d: "distinct (map fst m)" and t: "t = of_nat (length ds)"
    by simp_all
  have "length ds = length (extractDomains (csvReader rows))"
    using arg_cong [OF m, of size] by simp
  with t have t': "t = of_nat (length (extractDomains (csvReader rows)))" by simp
  have "map_of m = map_of (fst (aggregateDomains (extractDomains (csvReader rows)) ([], 0)))"
    using aggregateDomains_map_of_cong [OF m] agg by simp
  moreover have "processCsv (Record header # rows) n sched = Some (m, t, None)"
    using ds agg by (simp add: processCsv_def Read_Record)
  ultimately show ?thesis using d t' by simp
qed

lemma ProcessFile_ok:
  assumes "0 < n" and "fs filePath = Some (Record header # rows)"
  shows "ProcessFile fs n sched filePath =
     Some (\<lparr>DomainStats = createStats (fst (aggregateDomains (extractDomains (csvReader rows)) ([], 0))),
            TotalCount = of_nat (length (extractDomains (csvReader rows)))\<rparr>, None)"
proof -
  from processCsv_header_ok [OF assms(1), of header rows sched]
  obtain m where p: "processCsv (Record header # rows) n sched =
            Some (m, of_nat (length (extractDomains (csvReader rows))), None)"
    and d: "distinct (map fst m)"
    and mo: "map_of m = map_of (fst (aggregateDomains (extractDomains (csvReader rows)) ([], 0)))"
    by blast
  have d2: "distinct (map fst (fst (aggregateDomains (extractDomains (csvReader rows)) ([], 0))))"
    by (rule aggregateDomains_distinct) simp
  from d d2 mo have "createStats m = createStats (fst (aggregateDomains (extractDomains (csvReader rows)) ([], 0)))"
    by (rule createStats_map_of)
  with p assms(2) show ?thesis
    by (simp add: ProcessFile_def os_Open_def)
qed

section \<open>Domain extraction on the inputs of the test table\<close>

text \<open>
  Claim C4. \<open>extractDomain\<close> is a function of its argument alone, and:
  \<open>"user@Example.COM"\<close> gives \<open>"example.com"\<close> (the part after the first \<open>@\<close>, in lower
  case); \<open>"no-at-sign"\<close>, \<open>"a@@b.com"\<close>, \<open>"a@"\<close> and the empty string give the
  empty string, the sentinel of an invalid address.
\<close>

theorem extractDomain_examples:
  "extractDomain ''user@Example.COM'' = ''example.com'' \<and>
   extractDomain ''no-at-sign'' = '''' \<and>
   extractDomain ''a@@b.com'' = '''' \<and>
   extractDomain ''a@'' = '''' \<and>
   extractDomain '''' = ''''"
  by code_simp

section \<open>Which addresses yield a domain\<close>

text \<open>
  Claim C1, as amended. For every input string, \<open>extractDomain\<close> on the trimmed string
  returns a non-empty domain if and only if splitting the trimmed string on the first
  \<open>@\<close> yields two parts of which the right one is not empty and contains no further
  \<open>@\<close>. The left (local) part is not looked at: \<open>extractDomain("@b.com")\<close> is
  \<open>"b.com"\<close>.
\<close>

theorem extractDomain_nonempty_iff:
  "(extractDomain (TrimSpace email) \<noteq> '''') =
     (case SplitN (TrimSpace email) CHR ''@'' of
        [localPart, domainPart] \<Rightarrow> domainPart \<noteq> '''' \<and> \<not> Contains domainPart CHR ''@''
      | _ \<Rightarrow> False) \<and>
   extractDomain (TrimSpace ''@b.com'') = ''b.com''"
proof
  show "(extractDomain (TrimSpace email) \<noteq> '''') =
     (case SplitN (TrimSpace email) CHR ''@'' of
        [localPart, domainPart] \<Rightarrow> domainPart \<noteq> '''' \<and> \<not> Contains domainPart CHR ''@''
      | _ \<Rightarrow> False)"
    by (simp add: extractDomain_def SplitN_def Let_def ToLower_Nil_iff)
  show "extractDomain (TrimSpace ''@b.com'') = ''b.com''"
    by code_simp
qed

text \<open>
  The claim as the specification states it asks for a non-empty local part, and fails on
  \<open>"@b.com"\<close>: the code returns the domain \<open>"b.com"\<close>, the rule of the specification
  says invalid.
\<close>

theorem extractDomain_local_part_counterexample:
  "extractDomain (TrimSpace ''@b.com'') = ''b.com'' \<and> \<not> spec_valid_email ''@b.com''"
  by code_simp

section \<open>The report for the five rows of the test\<close>

lemma csvReader_map_Record:
  "list_all (\<lambda>records. EMAIL_IDX < length records) rows \<Longrightarrow>
   csvReader (map Record rows) = map (\<lambda>records. records ! EMAIL_IDX) rows"
  by (induction rows) (simp_all add: csvReader_Nil csvReader_Record)

lemma five_emails_stats:
  "createStats (fst (aggregateDomains (extractDomains
      [''mhernandez0@github.io'', ''bortiz1@github.io'', ''dhenry2@github.io'',
       ''ghenderson6@acquirethisname.com'', ''nallen8@cnet.com'']) ([], 0))) =
    [\<lparr>Name = ''acquirethisname.com'', Count = 1\<rparr>,
     \<lparr>Name = ''cnet.com'', Count = 1\<rparr>,
     \<lparr>Name = ''github.io'', Count = 3\<rparr>]"
  by code_simp

lemma five_emails_total:
  "length (extractDomains
      [''mhernandez0@github.io'', ''bortiz1@github.io'', ''dhenry2@github.io'',
       ''ghenderson6@acquirethisname.com'', ''nallen8@cnet.com'']) = 5"
  by code_simp

text \<open>
  Claim C2. A file with a header row followed by exactly five rows that the reader
  returns as records, whose fields at index 2 are \<open>mhernandez0@github.io\<close>,
  \<open>bortiz1@github.io\<close>, \<open>dhenry2@github.io\<close>, \<open>ghenderson6@acquirethisname.com\<close> and
  \<open>nallen8@cnet.com\<close>, yields the report with \<open>TotalCount = 5\<close> and the sorted statistics
  \<open>("acquirethisname.com", 1)\<close>, \<open>("cnet.com", 1)\<close>, \<open>("github.io", 3)\<close>, whatever the
  other fields, the number of workers (at least one) and the schedule.
\<close>

theorem five_rows_report:
  assumes "0 < numCPU"
    and "fs filePath = Some (Record header # map Record rows)"
    and "list_all (\<lambda>records. EMAIL_IDX < length records) rows"
    and "map (\<lambda>records. records ! EMAIL_IDX) rows =
           [''mhernandez0@github.io'', ''bortiz1@github.io'', ''dhenry2@github.io'',
            ''ghenderson6@acquirethisname.com'', ''nallen8@cnet.com'']"
  shows "ProcessFile fs numCPU sched filePath =
     Some (\<lparr>DomainStats =
              [\<lparr>Name = ''acquirethisname.com'', Count = 1\<rparr>,
               \<lparr>Name = ''cnet.com'', Count = 1\<rparr>,
               \<lparr>Name = ''github.io'', Count = 3\<rparr>],
            TotalCount = 5\<rparr>, None)"
proof -
  have "csvReader (map Record rows) =
      [''mhernandez0@github.io'', ''bortiz1@github.io'', ''dhenry2@github.io'',
       ''ghenderson6@acquirethisname.com'', ''nallen8@cnet.com'']"
    using csvReader_map_Record [OF assms(3)] assms(4) by simp
  moreover have "ProcessFile fs numCPU sched filePath =
     Some (\<lparr>DomainStats = createStats (fst (aggregateDomains
              (extractDomains (csvReader (map Record rows))) ([], 0))),
            TotalCount = of_nat (length (extractDomains (csvReader (map Record rows))))\<rparr>, None)"
    using assms(1,2) by (rule ProcessFile_ok)
  ultimately show ?thesis
    by (simp only: five_emails_stats five_emails_total) simp
qed

theorem five_rows_report_witness:
  "ProcessFile [''customers.csv'' \<mapsto> valid_csv] 4 [0, 1, 2, 3, 3, 1, 0, 2] ''customers.csv'' =
     Some (valid_csv_report, None)"
  unfolding valid_csv_report_def
proof (rule five_rows_report)
  show "0 < (4::nat)" by simp
  show "[''customers.csv'' \<mapsto> valid_csv] ''customers.csv'' = Some
     (Record [''first_name'', ''last_name'', ''email'', ''gender'', ''ip_address''] # map Record
     [[''Mildred'', ''Hernandez'', ''mhernandez0@github.io'', ''Female'', ''38.194.51.128''],
     [''Bonnie'', ''Ortiz'', ''bortiz1@github.io'', ''Female'', ''197.54.209.129''],
     [''Dennis'', ''Henry'', ''dhenry2@github.io'', ''Male'', ''155.75.186.217''],
     [''Gary'', ''Henderson'', ''ghenderson6@acquirethisname.com'', ''Male'', ''30.97.220.14''],
     [''Norma'', ''Allen'', ''nallen8@cnet.com'', ''Female'', ''168.67.162.1'']])"
    by (simp add: valid_csv_def)
  show "list_all (\<lambda>records. EMAIL_IDX < length records)
     [[''Mildred'', ''Hernandez'', ''mhernandez0@github.io'', ''Female'', ''38.194.51.128''],
     [''Bonnie'', ''Ortiz'', ''bortiz1@github.io'', ''Female'', ''197.54.209.129''],
     [''Dennis'', ''Henry'', ''dhenry2@github.io'', ''Male'', ''155.75.186.217''],
     [''Gary'', ''Henderson'', ''ghenderson6@acquirethisname.com'', ''Male'', ''30.97.220.14''],
     [''Norma'', ''Allen'', ''nallen8@cnet.com'', ''Female'', ''168.67.162.1'']]"
    by (simp add: EMAIL_IDX_def)
  show "map (\<lambda>records. records ! EMAIL_IDX)
     [[''Mildred'', ''Hernandez'', ''mhernandez0@github.io'', ''Female'', ''38.194.51.128''],
     [''Bonnie'', ''Ortiz'', ''bortiz1@github.io'', ''Female'', ''197.54.209.129''],
     [''Dennis'', ''Henry'', ''dhenry2@github.io'', ''Male'', ''155.75.186.217''],
     [''Gary'', ''Henderson'', ''ghenderson6@acquirethisname.com'', ''Male'', ''30.97.220.14''],
     [''Norma'', ''Allen'', ''nallen8@cnet.com'', ''Female'', ''168.67.162.1'']] =
           [''mhernandez0@github.io'', ''bortiz1@github.io'', ''dhenry2@github.io'',
            ''ghenderson6@acquirethisname.com'', ''nallen8@cnet.com'']"
    by (simp add: EMAIL_IDX_def)
qed

section \<open>A header that cannot be read\<close>

text \<open>
  Claim C3. When the first \<open>Read\<close> fails (on an empty input it returns \<open>EOF\<close>),
  \<open>ProcessFile\<close> returns an error whose message is
  \<open>"error reading the header of csv: "\<close> followed by the message of the cause; the error
  is not the value \<open>EOF\<close> and its message is not that of \<open>EOF\<close>; the
  result returned with it has a zero \<open>TotalCount\<close> and an empty \<open>DomainStats\<close>.
\<close>

theorem header_read_error:
  assumes "fs filePath = Some reader" and "Read reader = (Inl cause, rest)"
  shows "\<exists>err. ProcessFile fs numCPU sched filePath =
             Some (\<lparr>DomainStats = [], TotalCount = 0\<rparr>, Some err) \<and>
           Error err = ''error reading the header of csv: '' @ Error cause \<and>
           err \<noteq> EOF \<and> Error err \<noteq> Error EOF"
  using assms by (simp add: ProcessFile_def os_Open_def processCsv_def)

theorem header_read_error_witness:
  "ProcessFile [''empty.csv'' \<mapsto> []] 4 [] ''empty.csv'' =
     Some (\<lparr>DomainStats = [], TotalCount = 0\<rparr>,
           Some (Errorf ''error reading the header of csv: EOF''))"
proof -
  have "[''empty.csv'' \<mapsto> []] ''empty.csv'' = Some ([] :: csv_Reader)" by simp
  moreover have "Read [] = (Inl EOF, [])" by (simp add: Read_def)
  ultimately obtain err where
    "ProcessFile [''empty.csv'' \<mapsto> []] 4 [] ''empty.csv'' =
       Some (\<lparr>DomainStats = [], TotalCount = 0\<rparr>, Some err)"
    and "Error err = ''error reading the header of csv: '' @ Error EOF" and "err \<noteq> EOF"
    using header_read_error [of "[''empty.csv'' \<mapsto> []]" "''empty.csv''" "[]" EOF "[]" 4 "[]"]
    by blast
  moreover have "ProcessFile [''empty.csv'' \<mapsto> []] 4 [] ''empty.csv'' =
     Some (\<lparr>DomainStats = [], TotalCount = 0\<rparr>,
           Some (Errorf ''error reading the header of csv: EOF''))"
    by (simp add: ProcessFile_def os_Open_def processCsv_def Read_def)
  ultimately show ?thesis by simp
qed

end
